theory Spec2Isabelle
  imports Complex_Main
begin

section \<open>The ArUco pose node (\<open>ros2_aruco/aruco_node.py\<close>)\<close>

text \<open>
  A shallow embedding of \<open>ArucoNode\<close>: its fields are a record, the two subscription
  callbacks are functions from a node to the node they leave behind together with the
  log lines and publications they caused, and the executor that delivers messages is a
  recursion over the list of incoming messages. Floating-point numbers are modelled by
  the reals; OpenCV and \<open>tf_transformations\<close> are collaborators passed as a record of
  functions.
\<close>

subsection \<open>Vectors and quaternions (numpy arrays of 3 and 4 floats)\<close>

type_synonym vec3 = "real \<times> real \<times> real"

type_synonym quat = "real \<times> real \<times> real \<times> real"

type_synonym matrix = "real list list"

text \<open>One element of \<open>corners\<close>, read through \<open>corner[0]\<close>: the image points of a marker.\<close>

type_synonym corner = "(real \<times> real) list"

text \<open>
  The exceptions that can leave a callback: an index out of range, and the \<open>cv2.error\<close>
  with which a pose solver fails.
\<close>

datatype error = IndexError | Cv2Error

fun qdot :: "quat \<Rightarrow> quat \<Rightarrow> real" where
  "qdot (x0, y0, z0, w0) (x1, y1, z1, w1) = x0 * x1 + y0 * y1 + z0 * z1 + w0 * w1"

fun qscale :: "quat \<Rightarrow> real \<Rightarrow> quat" where
  "qscale (x, y, z, w) c = (x * c, y * c, z * c, w * c)"

fun qadd :: "quat \<Rightarrow> quat \<Rightarrow> quat" where
  "qadd (x0, y0, z0, w0) (x1, y1, z1, w1) = (x0 + x1, y0 + y1, z0 + z1, w0 + w1)"

fun qdiv :: "quat \<Rightarrow> real \<Rightarrow> quat" where
  "qdiv (x, y, z, w) c = (x / c, y / c, z / c, w / c)"

text \<open>\<open>np.linalg.norm\<close> of a 4-vector.\<close>

definition qnorm :: "quat \<Rightarrow> real" where
  "qnorm q = sqrt (qdot q q)"

subsection \<open>\<open>tf_transformations.quaternion_slerp\<close>\<close>

text \<open>\<open>_EPS = numpy.finfo(float).eps * 4.0\<close>, with \<open>eps = 2 ** -52\<close>.\<close>

definition EPS :: real where
  "EPS = (1 / 2 ^ 52) * 4"

text \<open>
  \<open>unit_vector\<close>: the vector divided by \<open>sqrt(dot(data, data))\<close> (of the zero vector
  numpy makes \<open>nan\<close>, HOL the zero vector).
\<close>

definition unit_vector :: "quat \<Rightarrow> quat" where
  "unit_vector q = qdiv q (sqrt (qdot q q))"

text \<open>
  Modelled from the spec: \<open>tf_transformations.quaternion_slerp\<close> is a function of a
  third-party library and is not part of the repository. The specification describes it
  as the spherical interpolation between two quaternions along the shortest great-circle
  arc, with the sign of the second quaternion flipped when the dot product is negative,
  and with a degenerate blend of identical quaternions returning the input itself. The
  definition follows the library routine of that name, called as the node calls it
  (\<open>spin = 0\<close>, \<open>shortestpath = True\<close>).
\<close>

definition quaternion_slerp :: "quat \<Rightarrow> quat \<Rightarrow> real \<Rightarrow> quat" where
  "quaternion_slerp quat0 quat1 fraction =
     (let q0 = unit_vector quat0;
          q1 = unit_vector quat1
      in if fraction = 0 then q0
         else if fraction = 1 then q1
         else
           let d = qdot q0 q1
           in if \<bar>\<bar>d\<bar> - 1\<bar> < EPS then q0
              else
                let d' = (if d < 0 then - d else d);
                    q1' = (if d < 0 then qscale q1 (- 1) else q1);
                    angle = arccos d'
                in if \<bar>angle\<bar> < EPS then q0
                   else
                     let isin = 1 / sin angle
                     in qadd (qscale q0 (sin ((1 - fraction) * angle) * isin))
                             (qscale q1' (sin (fraction * angle) * isin)))"

subsection \<open>Messages\<close>

record header =
  frame_id :: string
  stamp :: nat

text \<open>\<open>sensor_msgs/CameraInfo\<close>: the fields \<open>header\<close>, \<open>k\<close> (nine floats) and \<open>d\<close>.\<close>

record camera_info =
  info_header :: header
  info_k :: "real list"
  info_d :: "real list"

text \<open>\<open>sensor_msgs/Image\<close>: the header and the pixel data.\<close>

record image =
  img_header :: header
  img_data :: "nat list"

text \<open>\<open>geometry_msgs/Pose\<close>.\<close>

record pose =
  position :: vec3
  orientation :: quat

text \<open>\<open>geometry_msgs/PoseArray\<close>.\<close>

record pose_array =
  pa_header :: header
  pa_poses :: "pose list"

text \<open>\<open>ros2_aruco_interfaces/ArucoMarkers\<close>.\<close>

record aruco_markers =
  am_header :: header
  am_marker_ids :: "int list"
  am_poses :: "pose list"

text \<open>What a callback does to the outside: a warning on the logger, or a publication.\<close>

datatype event =
  Warn string
| Publish_poses pose_array
| Publish_markers aruco_markers

subsection \<open>The collaborators (\<open>cv2\<close>, \<open>cv2.aruco\<close>, \<open>tf_transformations\<close>)\<close>

text \<open>
  \<open>detectMarkers\<close> returns the corner sets and the marker ids, the ids being \<open>None\<close> when
  no marker was found; each id is read through \<open>marker_id[0]\<close>. \<open>solvePnP\<close> returns
  \<open>retval, rvec, tvec\<close>, or fails by raising \<open>cv2.error\<close>; so does the older
  \<open>estimatePoseSingleMarkers\<close>, which returns the vectors of all markers at once.
  \<open>version_gt_4\<close> is the test \<open>cv2.__version__ > "4.0.0"\<close>. \<open>Rodrigues\<close> stands for the
  first component of its result, a 3 by 3 matrix. The detector and the two conversions
  are taken to return.
\<close>

record cv =
  detectMarkers :: "nat list \<Rightarrow> corner list \<times> int list option"
  version_gt_4 :: bool
  solvePnP ::
    "matrix \<Rightarrow> corner \<Rightarrow> matrix option \<Rightarrow> real list option \<Rightarrow> error + bool \<times> vec3 \<times> vec3"
  estimatePoseSingleMarkers ::
    "corner list \<Rightarrow> real \<Rightarrow> matrix option \<Rightarrow> real list option \<Rightarrow>
     error + vec3 list \<times> vec3 list"
  Rodrigues :: "vec3 \<Rightarrow> matrix"
  quaternion_from_matrix :: "matrix \<Rightarrow> quat"

subsection \<open>The node\<close>

type_synonym history = "int \<rightharpoonup> (vec3 \<times> quat) list"

text \<open>
  \<open>info_sub\<close> tells whether the camera-info subscription is still registered;
  \<open>pose_history\<close> is the \<open>defaultdict\<close> of deques, a key being present once its deque
  has been created.
\<close>

record node =
  last_publish_time :: nat
  marker_size :: real
  camera_frame :: string
  info_sub :: bool
  info_msg :: "camera_info option"
  intrinsic_mat :: "matrix option"
  distortion :: "real list option"
  window_size :: nat
  pose_history :: history

text \<open>The fields as \<open>__init__\<close> leaves them, given the parameters and the clock.\<close>

definition init :: "real \<Rightarrow> string \<Rightarrow> nat \<Rightarrow> node" where
  "init msize frame now =
     \<lparr> last_publish_time = now, marker_size = msize, camera_frame = frame,
       info_sub = True, info_msg = None, intrinsic_mat = None, distortion = None,
       window_size = 2, pose_history = Map.empty \<rparr>"

subsection \<open>The history buffers: \<open>defaultdict(lambda: deque(maxlen=self.window_size))\<close>\<close>

text \<open>
  \<open>deque.append\<close> on a deque of bounded length: the item is put at the right end and,
  if the deque is then longer than \<open>maxlen\<close>, one item is taken from the left end.
\<close>

definition deque_append :: "nat \<Rightarrow> 'a list \<Rightarrow> 'a \<Rightarrow> 'a list" where
  "deque_append maxlen xs x =
     (let ys = xs @ [x] in if maxlen < length ys then tl ys else ys)"

text \<open>Reading \<open>self.pose_history[marker_id]\<close>: a missing key gets a new empty deque.\<close>

definition history_get :: "history \<Rightarrow> int \<Rightarrow> (vec3 \<times> quat) list" where
  "history_get h marker_id = (case h marker_id of None \<Rightarrow> [] | Some xs \<Rightarrow> xs)"

text \<open>\<open>self.pose_history[marker_id].append((position, quat))\<close>.\<close>

definition push :: "nat \<Rightarrow> history \<Rightarrow> int \<Rightarrow> vec3 \<times> quat \<Rightarrow> history" where
  "push maxlen h marker_id p = h(marker_id \<mapsto> deque_append maxlen (history_get h marker_id) p)"

text \<open>A run of appends to the deque of one marker, oldest first.\<close>

fun pushes :: "nat \<Rightarrow> history \<Rightarrow> int \<Rightarrow> (vec3 \<times> quat) list \<Rightarrow> history" where
  "pushes maxlen h marker_id [] = h"
| "pushes maxlen h marker_id (p # ps) = pushes maxlen (push maxlen h marker_id p) marker_id ps"

subsection \<open>Smoothing a window\<close>

text \<open>\<open>np.mean([p[0] for p in poses], axis=0)\<close>: the mean of each coordinate.\<close>

definition avg_position :: "(vec3 \<times> quat) list \<Rightarrow> vec3" where
  "avg_position poses =
     (let ps = map fst poses; n = real (length ps)
      in (sum_list (map fst ps) / n,
          sum_list (map (fst \<circ> snd) ps) / n,
          sum_list (map (snd \<circ> snd) ps) / n))"

text \<open>
  The running estimate before the final division: \<open>quats[0]\<close>, which raises on an empty
  window, blended with each later quaternion in turn at fraction 0.5.
\<close>

definition blend :: "quat list \<Rightarrow> error + quat" where
  "blend quats =
     (case quats of
        [] \<Rightarrow> Inl IndexError
      | q0 # rest \<Rightarrow>
          Inr (if length quats > 1
               then foldl (\<lambda>avg q. quaternion_slerp avg q (1 / 2)) q0 rest
               else q0))"

text \<open>
  \<open>avg_quat / np.linalg.norm(avg_quat)\<close> after the blend. Where the blend is the zero
  quaternion numpy yields \<open>nan\<close> and HOL yields 0; what is proved about the quotient is
  proved for a blend that is not zero.
\<close>

definition avg_quat :: "(vec3 \<times> quat) list \<Rightarrow> error + quat" where
  "avg_quat poses =
     (case blend (map snd poses) of
        Inl e \<Rightarrow> Inl e
      | Inr q \<Rightarrow> Inr (qdiv q (qnorm q)))"

text \<open>The averaged pose of a window, as it is written into the \<open>Pose\<close> message.\<close>

definition smooth :: "(vec3 \<times> quat) list \<Rightarrow> error + pose" where
  "smooth poses =
     (let p = avg_position poses
      in case avg_quat poses of
           Inl e \<Rightarrow> Inl e
         | Inr q \<Rightarrow> Inr \<lparr> position = p, orientation = q \<rparr>)"

subsection \<open>\<open>info_callback\<close>\<close>

text \<open>
  \<open>np.reshape(np.array(k), (3, 3))\<close>; the message type fixes the length of \<open>k\<close> at
  nine, so the reshape does not fail.
\<close>

definition reshape33 :: "real list \<Rightarrow> matrix" where
  "reshape33 xs = [take 3 xs, take 3 (drop 3 xs), take 3 (drop 6 xs)]"

definition info_callback :: "node \<Rightarrow> camera_info \<Rightarrow> node" where
  "info_callback n m =
     n \<lparr> info_msg := Some m,
         intrinsic_mat := Some (reshape33 (info_k m)),
         distortion := Some (info_d m),
         info_sub := False \<rparr>"

subsection \<open>\<open>image_callback\<close>\<close>

text \<open>The corners of the marker in its own frame.\<close>

definition obj_points :: "real \<Rightarrow> matrix" where
  "obj_points msize =
     [[- msize / 2, msize / 2, 0],
      [msize / 2, msize / 2, 0],
      [msize / 2, - msize / 2, 0],
      [- msize / 2, - msize / 2, 0]]"

text \<open>
  The loop \<open>for corner in corners\<close>: each marker is solved in turn and its vectors are
  appended to \<open>rvecs\<close> and \<open>tvecs\<close>; the flag \<open>retval\<close> is bound and not used. The
  first solve that raises ends the loop and the callback.
\<close>

fun solve_each :: "cv \<Rightarrow> node \<Rightarrow> corner list \<Rightarrow> error + vec3 list \<times> vec3 list" where
  "solve_each c n [] = Inr ([], [])"
| "solve_each c n (corner # rest) =
     (case solvePnP c (obj_points (marker_size n)) corner (intrinsic_mat n) (distortion n) of
        Inl e \<Rightarrow> Inl e
      | Inr (retval, rvec, tvec) \<Rightarrow>
          (case solve_each c n rest of
             Inl e \<Rightarrow> Inl e
           | Inr (rvecs, tvecs) \<Rightarrow> Inr (rvec # rvecs, tvec # tvecs)))"

text \<open>The rotation and translation vectors of all detected markers.\<close>

definition solve_all :: "cv \<Rightarrow> node \<Rightarrow> corner list \<Rightarrow> error + vec3 list \<times> vec3 list" where
  "solve_all c n corners =
     (if version_gt_4 c then solve_each c n corners
      else estimatePoseSingleMarkers c corners (marker_size n) (intrinsic_mat n) (distortion n))"

text \<open>\<open>rot_matrix = np.eye(4)\<close> with its upper left 3 by 3 block overwritten.\<close>

definition rot_matrix :: "matrix \<Rightarrow> matrix" where
  "rot_matrix r = map (\<lambda>row. row @ [0]) r @ [[0, 0, 0, 1]]"

text \<open>
  The loop over \<open>enumerate(marker_ids)\<close>. It carries the history and the two messages
  being filled, and stops with the exception where an index is out of range.
\<close>

fun marker_loop ::
  "cv \<Rightarrow> nat \<Rightarrow> vec3 list \<Rightarrow> vec3 list \<Rightarrow> (nat \<times> int) list \<Rightarrow>
   history \<times> pose_array \<times> aruco_markers \<Rightarrow> error option \<times> history \<times> pose_array \<times> aruco_markers"
where
  "marker_loop c w rvecs tvecs [] s = (None, s)"
| "marker_loop c w rvecs tvecs ((i, marker_id) # rest) (h, pa, mk) =
     (if marker_id \<noteq> 1 then marker_loop c w rvecs tvecs rest (h, pa, mk)
      else if length tvecs \<le> i then (Some IndexError, h, pa, mk)
      else if length rvecs \<le> i then (Some IndexError, h, pa, mk)
      else
        let position = tvecs ! i;
            quat = quaternion_from_matrix c (rot_matrix (Rodrigues c (rvecs ! i)));
            h' = push w h marker_id (position, quat);
            poses = history_get h' marker_id
        in case smooth poses of
             Inl e \<Rightarrow> (Some e, h', pa, mk)
           | Inr p \<Rightarrow>
               marker_loop c w rvecs tvecs rest
                 (h', pa \<lparr> pa_poses := pa_poses pa @ [p] \<rparr>,
                  mk \<lparr> am_poses := am_poses mk @ [p],
                       am_marker_ids := am_marker_ids mk @ [marker_id] \<rparr>))"

text \<open>
  The header given to both outgoing messages: the frame of the camera-info message
  unless the parameter \<open>camera_frame\<close> names one, and the stamp of the image.
\<close>

definition frame_header :: "node \<Rightarrow> camera_info \<Rightarrow> image \<Rightarrow> header" where
  "frame_header n info img_msg =
     \<lparr> frame_id = (if camera_frame n = [] then frame_id (info_header info)
                    else camera_frame n),
       stamp = stamp (img_header img_msg) \<rparr>"

text \<open>
  The callback returns the exception it raised, if any, the node it leaves behind and
  what it logged and published.
\<close>

definition image_callback :: "cv \<Rightarrow> nat \<Rightarrow> node \<Rightarrow> image \<Rightarrow> error option \<times> node \<times> event list" where
  "image_callback c now n img_msg =
     (case info_msg n of
        None \<Rightarrow> (None, n, [Warn ''No camera info has been received!''])
      | Some info \<Rightarrow>
          (let n1 = n \<lparr> last_publish_time := now \<rparr>;
               hdr = frame_header n1 info img_msg;
               markers = \<lparr> am_header = hdr, am_marker_ids = [], am_poses = [] \<rparr>;
               pose_arr = \<lparr> pa_header = hdr, pa_poses = [] \<rparr>
           in (case detectMarkers c (img_data img_msg) of
                 (corners, None) \<Rightarrow> (None, n1, [])
               | (corners, Some marker_ids) \<Rightarrow>
                   (case solve_all c n1 corners of
                      Inl e \<Rightarrow> (Some e, n1, [])
                    | Inr (rvecs, tvecs) \<Rightarrow>
                        (case marker_loop c (window_size n1) rvecs tvecs
                                (enumerate 0 marker_ids) (pose_history n1, pose_arr, markers) of
                           (Some e, h, pa, mk) \<Rightarrow> (Some e, n1 \<lparr> pose_history := h \<rparr>, [])
                         | (None, h, pa, mk) \<Rightarrow>
                             (None, n1 \<lparr> pose_history := h \<rparr>,
                              [Publish_poses pa, Publish_markers mk]))))))"

subsection \<open>The executor (\<open>rclpy.spin\<close>)\<close>

text \<open>
  A message on the camera-info topic or on the image topic; the image comes with the
  reading of the clock at the time of its callback.
\<close>

datatype message =
  Camera_info camera_info
| Image_raw nat image

text \<open>
  A message reaches its callback only while the subscription exists; the camera-info
  subscription is the one \<open>info_callback\<close> destroys.
\<close>

fun dispatch :: "cv \<Rightarrow> node \<Rightarrow> message \<Rightarrow> error option \<times> node \<times> event list" where
  "dispatch c n (Camera_info m) = (if info_sub n then (None, info_callback n m, []) else (None, n, []))"
| "dispatch c n (Image_raw now img_msg) = image_callback c now n img_msg"

text \<open>Messages are handled one at a time; an exception leaving a callback ends the spin.\<close>

fun spin :: "cv \<Rightarrow> node \<Rightarrow> message list \<Rightarrow> error option \<times> node \<times> event list" where
  "spin c n [] = (None, n, [])"
| "spin c n (m # ms) =
     (case dispatch c n m of
        (Some e, n', evs) \<Rightarrow> (Some e, n', evs)
      | (None, n', evs) \<Rightarrow>
          (case spin c n' ms of (e, n'', evs') \<Rightarrow> (e, n'', evs @ evs')))"

subsection \<open>Reading a callback's result\<close>

definition raised :: "error option \<times> node \<times> event list \<Rightarrow> error option" where
  "raised r = fst r"

definition node_of :: "error option \<times> node \<times> event list \<Rightarrow> node" where
  "node_of r = fst (snd r)"

definition events_of :: "error option \<times> node \<times> event list \<Rightarrow> event list" where
  "events_of r = snd (snd r)"

text \<open>The messages sent on \<open>aruco_poses\<close> and on \<open>aruco_markers\<close>, in order.\<close>

fun poses_published :: "event list \<Rightarrow> pose_array list" where
  "poses_published [] = []"
| "poses_published (Publish_poses pa # evs) = pa # poses_published evs"
| "poses_published (ev # evs) = poses_published evs"

fun markers_published :: "event list \<Rightarrow> aruco_markers list" where
  "markers_published [] = []"
| "markers_published (Publish_markers mk # evs) = mk # markers_published evs"
| "markers_published (ev # evs) = markers_published evs"

subsection \<open>What a frame appends and what it should publish\<close>

text \<open>
  The pair appended to the history for the detection at index \<open>i\<close>: the translation
  vector, and the quaternion of the rotation vector.
\<close>

definition raw_pose :: "cv \<Rightarrow> vec3 list \<Rightarrow> vec3 list \<Rightarrow> nat \<Rightarrow> vec3 \<times> quat" where
  "raw_pose c rvecs tvecs i =
     (tvecs ! i, quaternion_from_matrix c (rot_matrix (Rodrigues c (rvecs ! i))))"

text \<open>
  The detections that get past the test on the marker id, each with its raw pose, in the
  order of the loop.
\<close>

definition passing ::
  "cv \<Rightarrow> vec3 list \<Rightarrow> vec3 list \<Rightarrow> (nat \<times> int) list \<Rightarrow> (int \<times> (vec3 \<times> quat)) list" where
  "passing c rvecs tvecs ims =
     map (\<lambda>(i, marker_id). (marker_id, raw_pose c rvecs tvecs i))
       (filter (\<lambda>(i, marker_id). \<not> marker_id \<noteq> 1) ims)"

text \<open>The same for a whole frame, as a calibrated node sees it.\<close>

definition frame_detections :: "cv \<Rightarrow> node \<Rightarrow> image \<Rightarrow> (int \<times> (vec3 \<times> quat)) list" where
  "frame_detections c n img_msg =
     (case detectMarkers c (img_data img_msg) of
        (corners, None) \<Rightarrow> []
      | (corners, Some marker_ids) \<Rightarrow>
          (case solve_all c n corners of
             Inl e \<Rightarrow> []
           | Inr (rvecs, tvecs) \<Rightarrow> passing c rvecs tvecs (enumerate 0 marker_ids)))"

text \<open>
  The raw poses that a run of frames appends to the deque of one marker, oldest first.
\<close>

definition appended :: "cv \<Rightarrow> node \<Rightarrow> (nat \<times> image) list \<Rightarrow> int \<Rightarrow> (vec3 \<times> quat) list" where
  "appended c n frames marker_id =
     concat (map (\<lambda>(now, img_msg).
                    map snd (filter (\<lambda>(m, p). m = marker_id) (frame_detections c n img_msg)))
               frames)"

text \<open>
  The per-frame procedure in the words of the specification (Frame Pipeline, steps 2 to
  4): for each detection, push the raw pose into the history buffer of its marker, take
  the buffer and smooth it, and append the marker id with the smoothed pose to the batch.
  The result is the history left behind and the batch of labelled poses.
\<close>

fun spec_batch ::
  "nat \<Rightarrow> history \<Rightarrow> (int \<times> (vec3 \<times> quat)) list \<Rightarrow> error + history \<times> (int \<times> pose) list" where
  "spec_batch w h [] = Inr (h, [])"
| "spec_batch w h ((marker_id, raw) # rest) =
     (let h' = push w h marker_id raw
      in case smooth (history_get h' marker_id) of
           Inl e \<Rightarrow> Inl e
         | Inr p \<Rightarrow>
             (case spec_batch w h' rest of
                Inl e \<Rightarrow> Inl e
              | Inr (h'', batch) \<Rightarrow> Inr (h'', (marker_id, p) # batch)))"

text \<open>The same collaborators, except that the solver reports the given success flag.\<close>

definition with_retval :: "bool \<Rightarrow> cv \<Rightarrow> cv" where
  "with_retval ok c =
     c \<lparr> solvePnP := (\<lambda>obj img_points mat dist.
            case solvePnP c obj img_points mat dist of
              Inl e \<Rightarrow> Inl e
            | Inr (retval, vecs) \<Rightarrow> Inr (ok, vecs)) \<rparr>"

subsection \<open>Concrete collaborators and messages\<close>

definition demo_corner :: corner where
  "demo_corner = [(0, 0), (1, 0), (1, 1), (0, 1)]"

text \<open>
  A corner set with a point missing (a malformed detection, which the specification
  counts as a failure of the pose solver), on which the solver fails.
\<close>

definition demo_bad_corner :: corner where
  "demo_bad_corner = [(0, 0), (1, 0), (1, 1)]"

text \<open>
  A detector with a fixed answer, and a solver that fails unless it is given four image
  points and otherwise places the marker at depth 1 behind its first corner.
\<close>

definition demo_cv :: "corner list \<times> int list option \<Rightarrow> cv" where
  "demo_cv detection =
     \<lparr> detectMarkers = (\<lambda>_. detection),
       version_gt_4 = True,
       solvePnP = (\<lambda>_ corner _ _.
          if length corner = 4 then Inr (True, (0, 0, 0), (fst (hd corner), snd (hd corner), 1))
          else Inl Cv2Error),
       estimatePoseSingleMarkers = (\<lambda>_ _ _ _. Inr ([], [])),
       Rodrigues = (\<lambda>_. [[1, 0, 0], [0, 1, 0], [0, 0, 1]]),
       quaternion_from_matrix = (\<lambda>_. (0, 0, 0, 1)) \<rparr>"

text \<open>
  The same with a detector that sees marker 1 further to the right the more pixels the
  image has.
\<close>

definition demo_moving_cv :: cv where
  "demo_moving_cv =
     (demo_cv ([], None))
       \<lparr> detectMarkers :=
           (\<lambda>data. ([map (\<lambda>(x, y). (x + real (length data), y)) demo_corner], Some [1])) \<rparr>"

definition demo_frames :: "(nat \<times> image) list" where
  "demo_frames =
     [(1, \<lparr> img_header = \<lparr> frame_id = ''camera'', stamp = 1 \<rparr>, img_data = [] \<rparr>),
      (2, \<lparr> img_header = \<lparr> frame_id = ''camera'', stamp = 2 \<rparr>, img_data = [0] \<rparr>),
      (3, \<lparr> img_header = \<lparr> frame_id = ''camera'', stamp = 3 \<rparr>, img_data = [0, 0] \<rparr>)]"

definition demo_info :: camera_info where
  "demo_info =
     \<lparr> info_header = \<lparr> frame_id = ''camera'', stamp = 0 \<rparr>,
       info_k = [1, 0, 0, 0, 1, 0, 0, 0, 1],
       info_d = [] \<rparr>"

definition demo_image :: image where
  "demo_image = \<lparr> img_header = \<lparr> frame_id = ''camera'', stamp = 7 \<rparr>, img_data = [] \<rparr>"

text \<open>A node before and after its first camera-info message.\<close>

definition demo_awaiting :: node where
  "demo_awaiting = init (1 / 16) [] 0"

definition demo_ready :: node where
  "demo_ready = info_callback demo_awaiting demo_info"

section \<open>The history buffers\<close>

lemma length_deque_append:
  "length xs \<le> n \<Longrightarrow> length (deque_append n xs x) \<le> n"
  by (auto simp: deque_append_def Let_def)

lemma history_get_push:
  "history_get (push n h m p) m' =
     (if m' = m then deque_append n (history_get h m) p else history_get h m')"
  by (simp add: push_def history_get_def)

lemma foldl_deque_append:
  assumes "length xs \<le> w"
  shows "foldl (deque_append w) xs ps = drop (length xs + length ps - w) (xs @ ps)"
  using assms
proof (induction ps arbitrary: xs)
  case Nil
  then show ?case by simp
next
  case (Cons p ps)
  have len: "length (deque_append w xs p) \<le> w"
    using Cons.prems by (rule length_deque_append)
  have "foldl (deque_append w) xs (p # ps) =
        drop (length (deque_append w xs p) + length ps - w) (deque_append w xs p @ ps)"
    using Cons.IH [OF len] by simp
  also have "\<dots> = drop (length xs + length (p # ps) - w) (xs @ p # ps)"
  proof (cases "length xs < w")
    case True
    then show ?thesis by (simp add: deque_append_def)
  next
    case False
    with Cons.prems have eq: "length xs = w" by simp
    then have "deque_append w xs p = tl (xs @ [p])"
      by (simp add: deque_append_def)
    moreover have "tl (xs @ [p]) @ ps = tl (xs @ p # ps)"
      by (cases xs) simp_all
    ultimately show ?thesis using eq by (simp add: drop_Suc del: drop_append)
  qed
  finally show ?case .
qed

lemma history_get_pushes_foldl:
  "history_get (pushes w h m ps) m = foldl (deque_append w) (history_get h m) ps"
  by (induction ps arbitrary: h) (simp_all add: history_get_push)

section \<open>Smoothing\<close>

lemma sum_squares_div:
  fixes a b c d n :: real
  shows "a / n * (a / n) + b / n * (b / n) + c / n * (c / n) + d / n * (d / n)
         = (a * a + b * b + c * c + d * d) / (n * n)"
  by (simp add: add_divide_distrib)

lemma qnorm_qdiv:
  assumes "q \<noteq> (0, 0, 0, 0)"
  shows "qnorm (qdiv q (qnorm q)) = 1"
proof -
  obtain a b c d where q: "q = (a, b, c, d)" by (cases q) auto
  let ?s = "a * a + b * b + c * c + d * d"
  have pos: "0 < ?s"
    using assms q
    by (metis add_pos_nonneg add_nonneg_pos not_real_square_gt_zero zero_le_square
        add_nonneg_nonneg)
  let ?n = "sqrt ?s"
  have nn: "?n * ?n = ?s" using pos by simp
  have "a / ?n * (a / ?n) + b / ?n * (b / ?n) + c / ?n * (c / ?n) + d / ?n * (d / ?n)
        = ?s / (?n * ?n)"
    by (rule sum_squares_div)
  also have "\<dots> = 1" using pos nn by simp
  finally show ?thesis by (simp only: qnorm_def q qdiv.simps qdot.simps real_sqrt_one)
qed

lemma qdiv_fixed:
  assumes "q \<noteq> (0, 0, 0, 0)" and "qdiv q r = q"
  shows "r = 1"
proof -
  obtain a b c d where q: "q = (a, b, c, d)" by (cases q) auto
  from assms q have eqs: "a / r = a" "b / r = b" "c / r = c" "d / r = d" by simp_all
  from assms(1) q consider "a \<noteq> 0" | "b \<noteq> 0" | "c \<noteq> 0" | "d \<noteq> 0" by auto
  then show ?thesis
  proof cases
    case 1
    with eqs(1) show ?thesis by (cases "r = 0") (simp_all add: field_simps)
  next
    case 2
    with eqs(2) show ?thesis by (cases "r = 0") (simp_all add: field_simps)
  next
    case 3
    with eqs(3) show ?thesis by (cases "r = 0") (simp_all add: field_simps)
  next
    case 4
    with eqs(4) show ?thesis by (cases "r = 0") (simp_all add: field_simps)
  qed
qed

text \<open>
  Claim C4 (as amended). A window holding a single pose is smoothed without any
  blending: the position comes back unchanged, and the orientation comes back divided by
  its norm, the division being done for every length of window. The orientation is
  therefore unchanged when it has norm 1, and a non-zero orientation of any other norm
  is changed.
\<close>

theorem smooth_single:
  "smooth [(p, q)] = Inr \<lparr> position = p, orientation = qdiv q (qnorm q) \<rparr> \<and>
   (qnorm q = 1 \<longrightarrow> qdiv q (qnorm q) = q) \<and>
   (q \<noteq> (0, 0, 0, 0) \<and> qnorm q \<noteq> 1 \<longrightarrow> qdiv q (qnorm q) \<noteq> q)"
proof -
  obtain x y z where p: "p = (x, y, z)" by (cases p) auto
  obtain a b c d where q: "q = (a, b, c, d)" by (cases q) auto
  have "smooth [(p, q)] = Inr \<lparr> position = p, orientation = qdiv q (qnorm q) \<rparr>"
    by (simp add: smooth_def avg_quat_def blend_def avg_position_def p q)
  moreover have "qnorm q = 1 \<longrightarrow> qdiv q (qnorm q) = q"
    by (simp add: q)
  moreover have "q \<noteq> (0, 0, 0, 0) \<and> qnorm q \<noteq> 1 \<longrightarrow> qdiv q (qnorm q) \<noteq> q"
    using qdiv_fixed [of q "qnorm q"] by blast
  ultimately show ?thesis by blast
qed

theorem smooth_single_witness:
  "smooth [((1, 2, 3), (0, 0, 0, 1))]
     = Inr \<lparr> position = (1, 2, 3), orientation = (0, 0, 0, 1) \<rparr> \<and>
   qnorm (0, 0, 0, 1) = 1 \<and>
   (0, 0, 0, 2) \<noteq> (0 :: real, 0 :: real, 0 :: real, 0 :: real) \<and>
   qnorm (0, 0, 0, 2) \<noteq> 1 \<and>
   qdiv (0, 0, 0, 2) (qnorm (0, 0, 0, 2)) \<noteq> (0, 0, 0, 2)"
proof -
  have one: "qnorm (0, 0, 0, 1) = 1" by (simp add: qnorm_def)
  have "qnorm (0, 0, 0, 2) = sqrt (2 * 2)" by (simp add: qnorm_def)
  then have two: "qnorm (0, 0, 0, 2) = 2" by (simp only: real_sqrt_mult_self) simp
  show ?thesis
    using smooth_single [of "(1, 2, 3)" "(0, 0, 0, 1)"] smooth_single [of "(1, 2, 3)" "(0, 0, 0, 2)"]
      one two
    by simp
qed

text \<open>
  The claim as stated returns every pose exactly unchanged with no renormalization
  altering a component; an orientation of norm 2 comes back with norm 1.
\<close>

theorem smooth_single_counterexample:
  "smooth [((1, 2, 3), (0, 0, 0, 2))]
     = Inr \<lparr> position = (1, 2, 3), orientation = (0, 0, 0, 1) \<rparr>"
proof -
  have "qnorm (0, 0, 0, 2) = sqrt (2 * 2)" by (simp add: qnorm_def)
  then have two: "qnorm (0, 0, 0, 2) = 2" by (simp only: real_sqrt_mult_self) simp
  show ?thesis
    by (simp add: smooth_def avg_quat_def blend_def avg_position_def two)
qed

text \<open>
  Claim C9. For every window whose blend exists (the window is not empty) and is not the
  zero quaternion, the orientation of the smoothed pose has norm exactly 1, whatever the
  length and the contents of the window.
\<close>

theorem smooth_orientation_unit:
  assumes "blend (map snd poses) = Inr b" and "b \<noteq> (0, 0, 0, 0)"
  shows "\<exists>p. smooth poses = Inr p \<and> qnorm (orientation p) = 1"
  using assms by (simp add: smooth_def avg_quat_def qnorm_qdiv)

theorem smooth_orientation_unit_witness:
  "blend (map snd [((0, 0, 1), (0, 0, 0, 2)), ((0, 0, 3), (0, 0, 0, 4))]) = Inr (0, 0, 0, 1) \<and>
   (0, 0, 0, 1) \<noteq> (0 :: real, 0 :: real, 0 :: real, 0 :: real) \<and>
   (\<exists>p. smooth [((0, 0, 1), (0, 0, 0, 2)), ((0, 0, 3), (0, 0, 0, 4))] = Inr p \<and>
        qnorm (orientation p) = 1)"
proof -
  have b: "blend (map snd [((0, 0, 1), (0, 0, 0, 2)), ((0, 0, 3), (0, 0, 0, 4))])
           = Inr (0, 0, 0, 1)"
    by (simp add: blend_def quaternion_slerp_def unit_vector_def EPS_def)
  have nz: "(0, 0, 0, 1) \<noteq> (0 :: real, 0 :: real, 0 :: real, 0 :: real)" by simp
  show ?thesis using b nz smooth_orientation_unit [OF b nz] by blast
qed

subsection \<open>Windows of non-zero quaternions\<close>

text \<open>
  The blend of a window is not the zero quaternion as soon as no quaternion of the window
  is: \<open>quaternion_slerp\<close> normalises its arguments and returns either the first of them
  or a positive multiple of the sum of two unit vectors whose dot product is not negative.
\<close>

lemma EPS_pos: "0 < EPS"
  by (simp add: EPS_def)

lemma qdot_pos: "q \<noteq> (0, 0, 0, 0) \<Longrightarrow> 0 < qdot q q"
proof -
  assume nz: "q \<noteq> (0, 0, 0, 0)"
  obtain a b c d where q: "q = (a, b, c, d)" by (cases q) auto
  have "0 < a * a + b * b + c * c + d * d"
    using nz q
    by (metis add_pos_nonneg add_nonneg_pos not_real_square_gt_zero zero_le_square
        add_nonneg_nonneg)
  then show ?thesis by (simp add: q)
qed

lemma qdot_unit_vector:
  assumes "q \<noteq> (0, 0, 0, 0)"
  shows "qdot (unit_vector q) (unit_vector q) = 1"
proof -
  obtain a b c d where q: "q = (a, b, c, d)" by (cases q) auto
  let ?s = "a * a + b * b + c * c + d * d"
  have pos: "0 < ?s" using qdot_pos [OF assms] by (simp add: q)
  let ?n = "sqrt ?s"
  have nn: "?n * ?n = ?s" using pos by simp
  have "a / ?n * (a / ?n) + b / ?n * (b / ?n) + c / ?n * (c / ?n) + d / ?n * (d / ?n)
        = ?s / (?n * ?n)"
    by (rule sum_squares_div)
  also have "\<dots> = 1" using pos nn by simp
  finally show ?thesis by (simp only: unit_vector_def q qdiv.simps qdot.simps)
qed

lemma qdot_nonzero: "qdot q q \<noteq> 0 \<Longrightarrow> q \<noteq> (0, 0, 0, 0)"
  by auto

lemma qdot_sum_scaled:
  "qdot (qadd (qscale a k) (qscale b l)) (qadd (qscale a k) (qscale b l))
   = k * k * qdot a a + 2 * k * l * qdot a b + l * l * qdot b b"
  by (cases a; cases b) (simp add: algebra_simps)

lemma qdot_neg: "qdot a (qscale b (- 1)) = - qdot a b" "qdot (qscale a (- 1)) b = - qdot a b"
  by (cases a; cases b; simp)+

lemma qdot_units_bounded:
  assumes "qdot a a = 1" and "qdot b b = 1"
  shows "\<bar>qdot a b\<bar> \<le> 1"
proof -
  have "0 \<le> qdot (qadd (qscale a 1) (qscale b 1)) (qadd (qscale a 1) (qscale b 1))"
    by (cases a; cases b) simp
  moreover have "0 \<le> qdot (qadd (qscale a 1) (qscale b (- 1))) (qadd (qscale a 1) (qscale b (- 1)))"
    by (cases a; cases b) simp
  ultimately show ?thesis
    unfolding qdot_sum_scaled using assms by simp
qed

lemma blend_step_nonzero:
  assumes "qdot u0 u0 = 1" and "qdot u1 u1 = 1" and "0 \<le> qdot u0 u1" and "0 < k"
  shows "qadd (qscale u0 k) (qscale u1 k) \<noteq> (0, 0, 0, 0)"
proof -
  have "qdot (qadd (qscale u0 k) (qscale u1 k)) (qadd (qscale u0 k) (qscale u1 k))
        = k * k * (2 + 2 * qdot u0 u1)"
    unfolding qdot_sum_scaled assms(1,2) by (simp add: algebra_simps)
  moreover have "0 < k * k * (2 + 2 * qdot u0 u1)" using assms(3,4) by simp
  ultimately have "qdot (qadd (qscale u0 k) (qscale u1 k)) (qadd (qscale u0 k) (qscale u1 k)) \<noteq> 0"
    by linarith
  then show ?thesis by (rule qdot_nonzero)
qed

lemma half_angle_coefficient:
  assumes "0 \<le> y" and "y < 1"
  shows "0 < sin (arccos y / 2) * (1 / sin (arccos y))"
proof -
  have ang: "0 < arccos y" "arccos y < pi"
    using arccos_lt_bounded [of y] assms by auto
  have "0 < sin (arccos y)" using ang by (simp add: sin_gt_zero)
  moreover have "0 < sin (arccos y / 2)" using ang by (simp add: sin_gt_zero)
  ultimately show ?thesis by simp
qed


lemma quaternion_slerp_unfold:
  "quaternion_slerp q0 q1 (1 / 2) =
     (let u0 = unit_vector q0; u1 = unit_vector q1; d = qdot u0 u1
      in if \<bar>\<bar>d\<bar> - 1\<bar> < EPS then u0
         else if d < 0
              then (if \<bar>arccos (- d)\<bar> < EPS then u0
                    else qadd (qscale u0 (sin (arccos (- d) / 2) * (1 / sin (arccos (- d)))))
                              (qscale (qscale u1 (- 1)) (sin (arccos (- d) / 2) * (1 / sin (arccos (- d))))))
              else (if \<bar>arccos d\<bar> < EPS then u0
                    else qadd (qscale u0 (sin (arccos d / 2) * (1 / sin (arccos d))))
                              (qscale u1 (sin (arccos d / 2) * (1 / sin (arccos d))))))"
proof -
  have half: "\<And>x :: real. (1 - 1 / 2) * x = x / 2" "\<And>x :: real. 1 / 2 * x = x / 2" by simp_all
  show ?thesis
    unfolding quaternion_slerp_def Let_def half by simp
qed


lemma quaternion_slerp_nonzero:
  assumes "q0 \<noteq> (0, 0, 0, 0)" and "q1 \<noteq> (0, 0, 0, 0)"
  shows "quaternion_slerp q0 q1 (1 / 2) \<noteq> (0, 0, 0, 0)"
proof -
  define u0 where "u0 = unit_vector q0"
  define u1 where "u1 = unit_vector q1"
  define d where "d = qdot u0 u1"
  have u0: "qdot u0 u0 = 1" and u1: "qdot u1 u1 = 1"
    using assms by (simp_all add: qdot_unit_vector u0_def u1_def)
  have nz0: "u0 \<noteq> (0, 0, 0, 0)" using u0 by (intro qdot_nonzero) simp
  have bound: "\<bar>d\<bar> \<le> 1" unfolding d_def by (rule qdot_units_bounded [OF u0 u1])
  have eq: "quaternion_slerp q0 q1 (1 / 2) =
     (if \<bar>\<bar>d\<bar> - 1\<bar> < EPS then u0
      else if d < 0
           then (if \<bar>arccos (- d)\<bar> < EPS then u0
                 else qadd (qscale u0 (sin (arccos (- d) / 2) * (1 / sin (arccos (- d)))))
                           (qscale (qscale u1 (- 1)) (sin (arccos (- d) / 2) * (1 / sin (arccos (- d))))))
           else (if \<bar>arccos d\<bar> < EPS then u0
                 else qadd (qscale u0 (sin (arccos d / 2) * (1 / sin (arccos d))))
                           (qscale u1 (sin (arccos d / 2) * (1 / sin (arccos d))))))"
    unfolding quaternion_slerp_unfold Let_def u0_def u1_def d_def by (rule refl)
  show ?thesis
  proof (cases "\<bar>\<bar>d\<bar> - 1\<bar> < EPS")
    case True
    then show ?thesis using nz0 eq by simp
  next
    case far: False
    then have lt: "\<bar>d\<bar> < 1" using bound EPS_pos by linarith
    show ?thesis
    proof (cases "d < 0")
      case True
      have k: "0 < sin (arccos (- d) / 2) * (1 / sin (arccos (- d)))"
        using True lt by (intro half_angle_coefficient) simp_all
      have flip: "qdot (qscale u1 (- 1)) (qscale u1 (- 1)) = 1" "0 \<le> qdot u0 (qscale u1 (- 1))"
        using u1 True by (simp_all add: qdot_neg d_def)
      have "qadd (qscale u0 (sin (arccos (- d) / 2) * (1 / sin (arccos (- d)))))
                 (qscale (qscale u1 (- 1)) (sin (arccos (- d) / 2) * (1 / sin (arccos (- d)))))
            \<noteq> (0, 0, 0, 0)"
        by (rule blend_step_nonzero [OF u0 flip k])
      then show ?thesis using far True nz0 eq by simp
    next
      case False
      have k: "0 < sin (arccos d / 2) * (1 / sin (arccos d))"
        using False lt by (intro half_angle_coefficient) simp_all
      have nn: "0 \<le> qdot u0 u1" using False by (simp add: d_def)
      have "qadd (qscale u0 (sin (arccos d / 2) * (1 / sin (arccos d))))
                 (qscale u1 (sin (arccos d / 2) * (1 / sin (arccos d))))
            \<noteq> (0, 0, 0, 0)"
        by (rule blend_step_nonzero [OF u0 u1 nn k])
      then show ?thesis using far False nz0 eq by simp
    qed
  qed
qed

lemma foldl_slerp_nonzero:
  assumes "q0 \<noteq> (0, 0, 0, 0)" and "\<forall>q \<in> set rest. q \<noteq> (0, 0, 0, 0)"
  shows "foldl (\<lambda>avg q. quaternion_slerp avg q (1 / 2)) q0 rest \<noteq> (0, 0, 0, 0)"
  using assms
proof (induction rest arbitrary: q0)
  case Nil
  then show ?case by simp
next
  case (Cons q rest)
  have "quaternion_slerp q0 q (1 / 2) \<noteq> (0, 0, 0, 0)"
    using Cons.prems by (intro quaternion_slerp_nonzero) simp_all
  then show ?case using Cons.IH Cons.prems by simp
qed

lemma blend_nonzero:
  assumes "quats \<noteq> []" and "\<forall>q \<in> set quats. q \<noteq> (0, 0, 0, 0)"
  shows "\<exists>b. blend quats = Inr b \<and> b \<noteq> (0, 0, 0, 0)"
proof (cases quats)
  case Nil
  then show ?thesis using assms by simp
next
  case (Cons q0 rest)
  then show ?thesis
    using assms foldl_slerp_nonzero [of q0 rest] by (simp add: blend_def)
qed

lemma smooth_unit_of_nonzero_window:
  assumes "poses \<noteq> []" and "\<forall>q \<in> set (map snd poses). q \<noteq> (0, 0, 0, 0)"
  shows "\<exists>p. smooth poses = Inr p \<and> qnorm (orientation p) = 1"
proof -
  obtain b where "blend (map snd poses) = Inr b" and "b \<noteq> (0, 0, 0, 0)"
    using blend_nonzero [of "map snd poses"] assms by auto
  then show ?thesis by (simp add: smooth_def avg_quat_def qnorm_qdiv)
qed

subsection \<open>The order of the window matters\<close>

lemma EPS_small: "EPS < 1"
  by (simp add: EPS_def)

lemma unit_vector_unit: "qdot q q = 1 \<Longrightarrow> unit_vector q = q"
  by (cases q) (simp add: unit_vector_def)

lemma quaternion_slerp_orthogonal:
  assumes "qdot q0 q0 = 1" and "qdot q1 q1 = 1" and "qdot q0 q1 = 0"
  shows "quaternion_slerp q0 q1 (1 / 2) = qadd (qscale q0 (sqrt 2 / 2)) (qscale q1 (sqrt 2 / 2))"
proof -
  have half: "(1 - 1 / 2) * (pi / 2) = pi / 4" "1 / 2 * (pi / 2) = pi / 4" by simp_all
  have big: "\<not> \<bar>pi / 2\<bar> < EPS" using pi_ge_two EPS_small by simp
  have "\<not> \<bar>\<bar>0 :: real\<bar> - 1\<bar> < EPS" using EPS_small by simp
  then show ?thesis
    using assms big
    by (simp add: quaternion_slerp_def unit_vector_unit Let_def sin_45 half)
qed


lemma blend_forward:
  "blend [(0, 0, 0, 1), (1, 0, 0, 0), (0, 1, 0, 0)] = Inr (1 / 2, sqrt 2 / 2, 0, 1 / 2)"
proof -
  have s1: "quaternion_slerp (0, 0, 0, 1) (1, 0, 0, 0) (1 / 2) = (sqrt 2 / 2, 0, 0, sqrt 2 / 2)"
    by (simp add: quaternion_slerp_orthogonal)
  have s2: "quaternion_slerp (sqrt 2 / 2, 0, 0, sqrt 2 / 2) (0, 1, 0, 0) (1 / 2)
            = (1 / 2, sqrt 2 / 2, 0, 1 / 2)"
    by (simp add: quaternion_slerp_orthogonal)
  show ?thesis by (simp add: blend_def s1 s2)
qed

lemma blend_backward:
  "blend [(0, 1, 0, 0), (1, 0, 0, 0), (0, 0, 0, 1)] = Inr (1 / 2, 1 / 2, 0, sqrt 2 / 2)"
proof -
  have s1: "quaternion_slerp (0, 1, 0, 0) (1, 0, 0, 0) (1 / 2) = (sqrt 2 / 2, sqrt 2 / 2, 0, 0)"
    by (simp add: quaternion_slerp_orthogonal)
  have s2: "quaternion_slerp (sqrt 2 / 2, sqrt 2 / 2, 0, 0) (0, 0, 0, 1) (1 / 2)
            = (1 / 2, 1 / 2, 0, sqrt 2 / 2)"
    by (simp add: quaternion_slerp_orthogonal)
  show ?thesis by (simp add: blend_def s1 s2)
qed

lemma qnorm_forward: "qnorm (1 / 2, sqrt 2 / 2, 0, 1 / 2) = 1"
  by (simp add: qnorm_def)

lemma qnorm_backward: "qnorm (1 / 2, 1 / 2, 0, sqrt 2 / 2) = 1"
  by (simp add: qnorm_def)

text \<open>
  Claim C7. There are three distinct unit quaternions whose blend (fold from the oldest
  to the newest by \<open>quaternion_slerp\<close> at 0.5, then division by the norm) differs from
  the blend of the same window in reverse order.
\<close>

theorem blend_order_dependent:
  "\<exists>q1 q2 q3. qnorm q1 = 1 \<and> qnorm q2 = 1 \<and> qnorm q3 = 1 \<and>
     q1 \<noteq> q2 \<and> q2 \<noteq> q3 \<and> q1 \<noteq> q3 \<and>
     avg_quat (map (Pair p) (rev [q1, q2, q3])) \<noteq> avg_quat (map (Pair p) [q1, q2, q3])"
proof -
  let ?a = "(0, 0, 0, 1) :: quat" and ?b = "(1, 0, 0, 0) :: quat" and ?c = "(0, 1, 0, 0) :: quat"
  have fwd: "avg_quat (map (Pair p) [?a, ?b, ?c]) = Inr (1 / 2, sqrt 2 / 2, 0, 1 / 2)"
    using blend_forward qnorm_forward by (simp add: avg_quat_def comp_def)
  have bwd: "avg_quat (map (Pair p) (rev [?a, ?b, ?c])) = Inr (1 / 2, 1 / 2, 0, sqrt 2 / 2)"
    using blend_backward qnorm_backward by (simp add: avg_quat_def comp_def)
  have "sqrt 2 \<noteq> 1" by simp
  then have ne: "avg_quat (map (Pair p) (rev [?a, ?b, ?c])) \<noteq> avg_quat (map (Pair p) [?a, ?b, ?c])"
    unfolding fwd bwd by simp
  have units: "qnorm ?a = 1" "qnorm ?b = 1" "qnorm ?c = 1" by (simp_all add: qnorm_def)
  have "?a \<noteq> ?b" "?b \<noteq> ?c" "?a \<noteq> ?c" by simp_all
  with ne units show ?thesis by blast
qed

section \<open>The image callback\<close>

subsection \<open>The loop over the detected markers\<close>

lemma marker_loop_messages:
  assumes "marker_loop c w rvecs tvecs ims (h, pa, mk) = (e, h', pa', mk')"
    and "pa_poses pa = am_poses mk"
    and "length (am_marker_ids mk) = length (am_poses mk)"
    and "pa_header pa = am_header mk"
  shows "pa_poses pa' = am_poses mk' \<and> length (am_marker_ids mk') = length (am_poses mk')
         \<and> pa_header pa' = am_header mk'"
  using assms
proof (induction c w rvecs tvecs ims "(h, pa, mk)" arbitrary: h pa mk rule: marker_loop.induct)
  case (1 c w rvecs tvecs)
  then show ?case by simp
next
  case (2 c w rvecs tvecs i marker_id rest h pa mk)
  show ?case
  proof (cases "marker_id \<noteq> 1")
    case True
    then show ?thesis using 2 by simp
  next
    case False
    then show ?thesis using 2
      by (auto simp: Let_def split: if_splits sum.splits)
  qed
qed


lemma marker_loop_solver:
  "marker_loop (c \<lparr> solvePnP := f \<rparr>) w rvecs tvecs ims s = marker_loop c w rvecs tvecs ims s"
proof (induction c w rvecs tvecs ims s rule: marker_loop.induct)
  case (1 c w rvecs tvecs s)
  then show ?case by simp
next
  case (2 c w rvecs tvecs i marker_id rest h pa mk)
  then show ?case
    by (auto simp: Let_def split: sum.splits)
qed

lemma smooth_nonempty: "poses \<noteq> [] \<Longrightarrow> \<exists>p. smooth poses = Inr p"
  by (cases poses) (simp_all add: smooth_def avg_quat_def blend_def)

lemma deque_append_nonempty: "0 < w \<Longrightarrow> deque_append w xs x \<noteq> []"
  by (cases xs) (auto simp: deque_append_def Let_def)

lemma marker_loop_returns:
  assumes "0 < w" and "\<forall>(i, m) \<in> set ims. i < length tvecs \<and> i < length rvecs"
  shows "fst (marker_loop c w rvecs tvecs ims s) = None"
  using assms
proof (induction c w rvecs tvecs ims s rule: marker_loop.induct)
  case (1 c w rvecs tvecs s)
  then show ?case by simp
next
  case (2 c w rvecs tvecs i marker_id rest h pa mk)
  show ?case
  proof (cases "marker_id \<noteq> 1")
    case True
    then show ?thesis using 2 by simp
  next
    case False
    let ?p = "(tvecs ! i, quaternion_from_matrix c (rot_matrix (Rodrigues c (rvecs ! i))))"
    have idx: "i < length tvecs" "i < length rvecs" using "2.prems"(2) by auto
    obtain p where p: "smooth (history_get (push w h marker_id ?p) marker_id) = Inr p"
      using smooth_nonempty deque_append_nonempty [OF "2.prems"(1)]
      by (metis history_get_push)
    show ?thesis using False idx p 2 by (simp add: Let_def)
  qed
qed


lemma marker_loop_refines:
  assumes "marker_loop c w rvecs tvecs ims (h, pa, mk) = (None, h', pa', mk')"
  shows "\<exists>batch. spec_batch w h (passing c rvecs tvecs ims) = Inr (h', batch) \<and>
           am_marker_ids mk' = am_marker_ids mk @ map fst batch \<and>
           am_poses mk' = am_poses mk @ map snd batch \<and>
           pa_poses pa' = pa_poses pa @ map snd batch"
  using assms
proof (induction c w rvecs tvecs ims "(h, pa, mk)" arbitrary: h pa mk rule: marker_loop.induct)
  case (1 c w rvecs tvecs)
  then show ?case by (simp add: passing_def)
next
  case (2 c w rvecs tvecs i marker_id rest h pa mk)
  show ?case
  proof (cases "marker_id \<noteq> 1")
    case True
    then have "passing c rvecs tvecs ((i, marker_id) # rest) = passing c rvecs tvecs rest"
      by (simp add: passing_def)
    then show ?thesis using True 2 by simp
  next
    case False
    let ?raw = "raw_pose c rvecs tvecs i"
    let ?h1 = "push w h marker_id ?raw"
    have idx: "\<not> length tvecs \<le> i" "\<not> length rvecs \<le> i"
      using False "2.prems" by (auto split: if_splits)
    obtain p where p: "smooth (history_get ?h1 marker_id) = Inr p"
      using False idx "2.prems"
      by (cases "smooth (history_get ?h1 marker_id)") (simp_all add: Let_def raw_pose_def)
    let ?pa1 = "pa \<lparr> pa_poses := pa_poses pa @ [p] \<rparr>"
    let ?mk1 = "mk \<lparr> am_poses := am_poses mk @ [p],
                      am_marker_ids := am_marker_ids mk @ [marker_id] \<rparr>"
    have step: "marker_loop c w rvecs tvecs rest (?h1, ?pa1, ?mk1) = (None, h', pa', mk')"
      using False idx p "2.prems" by (simp add: Let_def raw_pose_def)
    have pass: "passing c rvecs tvecs ((i, marker_id) # rest)
                = (marker_id, ?raw) # passing c rvecs tvecs rest"
      using False by (simp add: passing_def)
    have "\<exists>batch. spec_batch w ?h1 (passing c rvecs tvecs rest) = Inr (h', batch) \<and>
           am_marker_ids mk' = am_marker_ids ?mk1 @ map fst batch \<and>
           am_poses mk' = am_poses ?mk1 @ map snd batch \<and>
           pa_poses pa' = pa_poses ?pa1 @ map snd batch"
      using False idx p step
      by (intro "2.hyps"(2) [of "tvecs ! i" _ ?h1 _ p]) (simp_all add: raw_pose_def)
    then obtain batch where b: "spec_batch w ?h1 (passing c rvecs tvecs rest) = Inr (h', batch)"
      "am_marker_ids mk' = am_marker_ids ?mk1 @ map fst batch"
      "am_poses mk' = am_poses ?mk1 @ map snd batch"
      "pa_poses pa' = pa_poses ?pa1 @ map snd batch"
      by blast
    have "spec_batch w h (passing c rvecs tvecs ((i, marker_id) # rest))
          = Inr (h', (marker_id, p) # batch)"
      using pass p b(1) by (simp add: Let_def)
    then show ?thesis using b(2,3,4) by simp
  qed
qed

lemma spec_batch_history:
  assumes "spec_batch w h dets = Inr (h', batch)"
  shows "history_get h' m
         = foldl (deque_append w) (history_get h m) (map snd (filter (\<lambda>(m', p). m' = m) dets))"
  using assms
proof (induction dets arbitrary: h batch)
  case Nil
  then show ?case by simp
next
  case (Cons d dets)
  obtain m0 raw where d: "d = (m0, raw)" by (cases d) auto
  let ?h1 = "push w h m0 raw"
  obtain p where p: "smooth (history_get ?h1 m0) = Inr p"
    using Cons.prems d by (cases "smooth (history_get ?h1 m0)") (simp_all add: Let_def)
  obtain batch' where rest: "spec_batch w ?h1 dets = Inr (h', batch')"
    using Cons.prems d p
    by (cases "spec_batch w ?h1 dets") (auto simp: Let_def)
  have "history_get h' m
        = foldl (deque_append w) (history_get ?h1 m) (map snd (filter (\<lambda>(m', p). m' = m) dets))"
    by (rule Cons.IH [OF rest])
  then show ?case using d by (simp add: history_get_push)
qed

subsection \<open>The ways through the callback\<close>

lemma frame_header_time [simp]:
  "frame_header (n \<lparr> last_publish_time := t \<rparr>) info img_msg = frame_header n info img_msg"
  by (simp add: frame_header_def)

lemma solve_each_fields:
  assumes "marker_size n' = marker_size n" and "intrinsic_mat n' = intrinsic_mat n"
    and "distortion n' = distortion n"
  shows "solve_each c n' corners = solve_each c n corners"
proof (induction corners)
  case Nil
  show ?case by simp
next
  case (Cons corner corners)
  show ?case unfolding solve_each.simps assms Cons.IH by (rule refl)
qed

lemma solve_all_fields:
  assumes "marker_size n' = marker_size n" and "intrinsic_mat n' = intrinsic_mat n"
    and "distortion n' = distortion n"
  shows "solve_all c n' corners = solve_all c n corners"
  using assms solve_each_fields [OF assms] by (simp add: solve_all_def)

lemma solve_all_update [simp]:
  "solve_all c (n \<lparr> last_publish_time := t \<rparr>) corners = solve_all c n corners"
  "solve_all c (n \<lparr> pose_history := h \<rparr>) corners = solve_all c n corners"
  by (rule solve_all_fields; simp)+

lemma frame_detections_update [simp]:
  "frame_detections c (n \<lparr> last_publish_time := t \<rparr>) img_msg = frame_detections c n img_msg"
  "frame_detections c (n \<lparr> pose_history := h \<rparr>) img_msg = frame_detections c n img_msg"
  unfolding frame_detections_def solve_all_update by (rule refl)+

lemma image_callback_cases [case_names awaiting no_markers solver_raised markers]:
  obtains
    (awaiting) "info_msg n = None"
      "image_callback c now n img_msg = (None, n, [Warn ''No camera info has been received!''])"
  | (no_markers) info corners where "info_msg n = Some info"
      "detectMarkers c (img_data img_msg) = (corners, None)"
      "image_callback c now n img_msg = (None, n \<lparr> last_publish_time := now \<rparr>, [])"
  | (solver_raised) info corners marker_ids e where "info_msg n = Some info"
      "detectMarkers c (img_data img_msg) = (corners, Some marker_ids)"
      "solve_all c n corners = Inl e"
      "image_callback c now n img_msg = (Some e, n \<lparr> last_publish_time := now \<rparr>, [])"
  | (markers) info corners marker_ids rvecs tvecs e h pa mk where "info_msg n = Some info"
      "detectMarkers c (img_data img_msg) = (corners, Some marker_ids)"
      "solve_all c n corners = Inr (rvecs, tvecs)"
      "marker_loop c (window_size n) rvecs tvecs (enumerate 0 marker_ids)
         (pose_history n,
          \<lparr> pa_header = frame_header n info img_msg, pa_poses = [] \<rparr>,
          \<lparr> am_header = frame_header n info img_msg, am_marker_ids = [], am_poses = [] \<rparr>)
       = (e, h, pa, mk)"
      "image_callback c now n img_msg =
         (e, n \<lparr> last_publish_time := now, pose_history := h \<rparr>,
          if e = None then [Publish_poses pa, Publish_markers mk] else [])"
proof (cases "info_msg n")
  case None
  then show ?thesis using awaiting by (simp add: image_callback_def)
next
  case (Some info)
  obtain corners ids where det: "detectMarkers c (img_data img_msg) = (corners, ids)"
    by (cases "detectMarkers c (img_data img_msg)") auto
  show ?thesis
  proof (cases ids)
    case None
    then show ?thesis using no_markers [of info corners] Some det
      by (simp add: image_callback_def Let_def)
  next
    case ids: (Some marker_ids)
    have det': "detectMarkers c (img_data img_msg) = (corners, Some marker_ids)"
      using det ids by simp
    show ?thesis
    proof (cases "solve_all c n corners")
      case (Inl e)
      then show ?thesis using solver_raised [of info corners marker_ids e] Some det'
        by (simp add: image_callback_def Let_def)
    next
      case (Inr vecs)
      obtain rvecs tvecs where vecs: "vecs = (rvecs, tvecs)" by (cases vecs) auto
      obtain e h pa mk
        where loop: "marker_loop c (window_size n) rvecs tvecs (enumerate 0 marker_ids)
           (pose_history n,
            \<lparr> pa_header = frame_header n info img_msg, pa_poses = [] \<rparr>,
            \<lparr> am_header = frame_header n info img_msg, am_marker_ids = [], am_poses = [] \<rparr>)
         = (e, h, pa, mk)"
        by (metis prod_cases4)
      have sol: "solve_all c n corners = Inr (rvecs, tvecs)" using Inr vecs by simp
      have "image_callback c now n img_msg =
         (e, n \<lparr> last_publish_time := now, pose_history := h \<rparr>,
          if e = None then [Publish_poses pa, Publish_markers mk] else [])"
        using Some det' sol loop by (cases e) (simp_all add: image_callback_def Let_def)
      then show ?thesis using markers [OF Some det' sol loop] by simp
    qed
  qed
qed

lemma solve_each_lengths:
  "solve_each c n corners = Inr (rvecs, tvecs) \<Longrightarrow>
   length rvecs = length corners \<and> length tvecs = length corners"
  by (induction corners arbitrary: rvecs tvecs) (auto split: sum.splits)

lemma solve_each_raises:
  assumes "corner \<in> set corners"
    and "solvePnP c (obj_points (marker_size n)) corner (intrinsic_mat n) (distortion n) = Inl e"
  shows "\<exists>e'. solve_each c n corners = Inl e'"
  using assms by (induction corners) (auto split: sum.splits)

lemma solve_each_returns:
  assumes "\<forall>corner \<in> set corners. \<exists>v.
     solvePnP c (obj_points (marker_size n)) corner (intrinsic_mat n) (distortion n) = Inr v"
  shows "\<exists>vecs. solve_each c n corners = Inr vecs"
  using assms by (induction corners) (auto split: sum.splits)

lemma image_callback_returns:
  assumes "version_gt_4 c" and "0 < window_size n"
    and "detectMarkers c (img_data img_msg) = (corners, ids)"
    and "\<forall>marker_ids. ids = Some marker_ids \<longrightarrow> length marker_ids \<le> length corners"
    and "\<forall>corner \<in> set corners. \<exists>v.
     solvePnP c (obj_points (marker_size n)) corner (intrinsic_mat n) (distortion n) = Inr v"
  shows "raised (image_callback c now n img_msg) = None"
proof (cases rule: image_callback_cases [of n c now img_msg])
  case awaiting
  then show ?thesis by (simp add: raised_def)
next
  case (no_markers info corners)
  then show ?thesis by (simp add: raised_def)
next
  case (solver_raised info corners' marker_ids e)
  then have "corners' = corners" using assms(3) by simp
  then show ?thesis
    using solve_each_returns [OF assms(5)] solver_raised(3) assms(1) by (auto simp: solve_all_def)
next
  case (markers info corners' marker_ids rvecs tvecs e h pa mk)
  have len: "length marker_ids \<le> length corners" and c: "corners' = corners"
    using assms(3,4) markers(2) by auto
  have "length rvecs = length corners \<and> length tvecs = length corners"
    using solve_each_lengths [of c n corners rvecs tvecs] markers(3) c assms(1)
    by (simp add: solve_all_def)
  then have "\<forall>(i, m) \<in> set (enumerate 0 marker_ids). i < length tvecs \<and> i < length rvecs"
    using len by (auto simp: in_set_enumerate_eq)
  from marker_loop_returns [OF assms(2) this] markers(4) have "e = None"
    by (metis fst_conv)
  then show ?thesis using markers(5) by (simp add: raised_def)
qed

lemma solve_all_with_retval:
  "solve_all (with_retval ok c) n corners = solve_all c n corners"
proof -
  have "solve_each (with_retval ok c) n corners = solve_each c n corners"
    by (induction corners) (auto simp: with_retval_def split: sum.splits)
  then show ?thesis by (simp add: solve_all_def with_retval_def)
qed

lemma solver_flag_ignored:
  "image_callback (with_retval ok c) now n img_msg = image_callback c now n img_msg"
proof -
  have loop: "marker_loop (with_retval ok c) = marker_loop c"
    by (intro ext) (simp add: with_retval_def marker_loop_solver)
  have det: "detectMarkers (with_retval ok c) = detectMarkers c"
    by (simp add: with_retval_def)
  show ?thesis
    unfolding image_callback_def loop det solve_all_with_retval by (rule refl)
qed

lemma image_callback_node:
  "\<exists>t h. node_of (image_callback c now n img_msg) = n \<lparr> last_publish_time := t, pose_history := h \<rparr>"
proof (cases rule: image_callback_cases [of n c now img_msg])
  case awaiting
  have "node_of (image_callback c now n img_msg)
        = n \<lparr> last_publish_time := last_publish_time n, pose_history := pose_history n \<rparr>"
    using awaiting by (simp add: node_of_def)
  then show ?thesis by blast
next
  case (no_markers info corners)
  have "node_of (image_callback c now n img_msg)
        = n \<lparr> last_publish_time := now, pose_history := pose_history n \<rparr>"
    using no_markers by (simp add: node_of_def)
  then show ?thesis by blast
next
  case (solver_raised info corners marker_ids e)
  have "node_of (image_callback c now n img_msg)
        = n \<lparr> last_publish_time := now, pose_history := pose_history n \<rparr>"
    using solver_raised by (simp add: node_of_def)
  then show ?thesis by blast
next
  case (markers info corners marker_ids rvecs tvecs e h pa mk)
  have "node_of (image_callback c now n img_msg)
        = n \<lparr> last_publish_time := now, pose_history := h \<rparr>"
    using markers by (simp add: node_of_def)
  then show ?thesis by blast
qed

lemma demo_ready_simps:
  "info_msg demo_ready = Some demo_info"
  "window_size demo_ready = 2"
  "pose_history demo_ready = Map.empty"
  "camera_frame demo_ready = []"
  by (simp_all add: demo_ready_def demo_awaiting_def info_callback_def init_def)

lemmas demo_eval =
  image_callback_def demo_ready_simps demo_cv_def demo_image_def demo_corner_def
  demo_bad_corner_def solve_all_def Let_def
  enumerate_eq_zip upt_rec push_def history_get_def deque_append_def
  smooth_def avg_quat_def avg_position_def blend_def qnorm_def
  node_of_def events_of_def raised_def

subsection \<open>Frames before calibration\<close>

text \<open>
  Claim C3 (as amended). A frame that arrives while no camera-info message has been
  received raises nothing and leaves the node, its history buffers included, as it was;
  the callback logs one warning and returns before anything is published, so that no
  output batch, not even an empty one, is emitted for that frame.
\<close>

theorem image_callback_awaiting:
  assumes "info_msg n = None"
  shows "raised (image_callback c now n img_msg) = None \<and>
         node_of (image_callback c now n img_msg) = n \<and>
         events_of (image_callback c now n img_msg)
           = [Warn ''No camera info has been received!''] \<and>
         poses_published (events_of (image_callback c now n img_msg)) = [] \<and>
         markers_published (events_of (image_callback c now n img_msg)) = []"
  using assms by (simp add: image_callback_def raised_def node_of_def events_of_def)

theorem image_callback_awaiting_witness:
  "info_msg demo_awaiting = None \<and>
   raised (image_callback (demo_cv ([demo_corner], Some [1])) 1 demo_awaiting demo_image) = None \<and>
   node_of (image_callback (demo_cv ([demo_corner], Some [1])) 1 demo_awaiting demo_image)
     = demo_awaiting \<and>
   events_of (image_callback (demo_cv ([demo_corner], Some [1])) 1 demo_awaiting demo_image)
     = [Warn ''No camera info has been received!'']"
  using image_callback_awaiting
    [of demo_awaiting "demo_cv ([demo_corner], Some [1])" 1 demo_image]
  by (simp add: demo_awaiting_def init_def)

text \<open>
  The claim as stated asks for an (empty) batch to be emitted; no message is published
  on either topic.
\<close>

theorem awaiting_emits_nothing_counterexample:
  "poses_published (events_of
     (image_callback (demo_cv ([demo_corner], Some [1])) 1 demo_awaiting demo_image)) = [] \<and>
   markers_published (events_of
     (image_callback (demo_cv ([demo_corner], Some [1])) 1 demo_awaiting demo_image)) = []"
  by (simp add: image_callback_def events_of_def demo_awaiting_def init_def)

subsection \<open>The marker-id filter\<close>




subsection \<open>A pose solver that fails\<close>

text \<open>
  Claim C2 (as amended). When the pose solver fails on the corners of any marker of a
  frame, the exception leaves the callback while the vectors are still being computed,
  before the loop that pushes and smooths: the callback raises, no history buffer is
  changed and nothing is published, so that not only the failing marker but every other
  marker of the frame is missing from the output and from the history.
\<close>

theorem solver_failure_aborts_frame:
  assumes "info_msg n = Some info"
    and "detectMarkers c (img_data img_msg) = (corners, Some marker_ids)"
    and "version_gt_4 c"
    and "corner \<in> set corners"
    and "solvePnP c (obj_points (marker_size n)) corner (intrinsic_mat n) (distortion n) = Inl e"
  shows "raised (image_callback c now n img_msg) \<noteq> None \<and>
         pose_history (node_of (image_callback c now n img_msg)) = pose_history n \<and>
         events_of (image_callback c now n img_msg) = []"
proof -
  obtain e' where "solve_all c n corners = Inl e'"
    using solve_each_raises [OF assms(4,5)] assms(3) by (auto simp: solve_all_def)
  then have "image_callback c now n img_msg = (Some e', n \<lparr> last_publish_time := now \<rparr>, [])"
    using assms(1,2) by (simp add: image_callback_def Let_def)
  then show ?thesis by (simp add: raised_def node_of_def events_of_def)
qed

theorem solver_failure_aborts_frame_witness:
  "info_msg demo_ready = Some demo_info \<and>
   detectMarkers (demo_cv ([demo_corner, demo_bad_corner], Some [1, 2])) (img_data demo_image)
     = ([demo_corner, demo_bad_corner], Some [1, 2]) \<and>
   version_gt_4 (demo_cv ([demo_corner, demo_bad_corner], Some [1, 2])) \<and>
   demo_bad_corner \<in> set [demo_corner, demo_bad_corner] \<and>
   solvePnP (demo_cv ([demo_corner, demo_bad_corner], Some [1, 2]))
     (obj_points (marker_size demo_ready)) demo_bad_corner
     (intrinsic_mat demo_ready) (distortion demo_ready) = Inl Cv2Error \<and>
   raised (image_callback (demo_cv ([demo_corner, demo_bad_corner], Some [1, 2])) 1
     demo_ready demo_image) \<noteq> None \<and>
   pose_history (node_of (image_callback (demo_cv ([demo_corner, demo_bad_corner], Some [1, 2])) 1
     demo_ready demo_image)) = pose_history demo_ready \<and>
   events_of (image_callback (demo_cv ([demo_corner, demo_bad_corner], Some [1, 2])) 1
     demo_ready demo_image) = []"
proof -
  have ready: "info_msg demo_ready = Some demo_info" by (simp add: demo_ready_simps)
  have det: "detectMarkers (demo_cv ([demo_corner, demo_bad_corner], Some [1, 2]))
               (img_data demo_image) = ([demo_corner, demo_bad_corner], Some [1, 2])"
    by (simp add: demo_cv_def)
  have new: "version_gt_4 (demo_cv ([demo_corner, demo_bad_corner], Some [1, 2]))"
    by (simp add: demo_cv_def)
  have mem: "demo_bad_corner \<in> set [demo_corner, demo_bad_corner]" by simp
  have fails: "solvePnP (demo_cv ([demo_corner, demo_bad_corner], Some [1, 2]))
     (obj_points (marker_size demo_ready)) demo_bad_corner
     (intrinsic_mat demo_ready) (distortion demo_ready) = Inl Cv2Error"
    by (simp add: demo_cv_def demo_bad_corner_def)
  show ?thesis
    using solver_failure_aborts_frame [OF ready det new mem fails, of 1] ready det new mem fails
    by simp
qed

text \<open>
  The claim as stated has the other markers of the frame processed and emitted
  unaffected; with the solver failing on the corners of marker 2, marker 1 of the same
  frame is neither published nor pushed, and the callback raises.
\<close>

theorem solver_failure_counterexample:
  "raised (image_callback (demo_cv ([demo_corner, demo_bad_corner], Some [1, 2])) 1
     demo_ready demo_image) = Some Cv2Error \<and>
   markers_published (events_of
     (image_callback (demo_cv ([demo_corner, demo_bad_corner], Some [1, 2])) 1
        demo_ready demo_image)) = [] \<and>
   history_get (pose_history (node_of
     (image_callback (demo_cv ([demo_corner, demo_bad_corner], Some [1, 2])) 1
        demo_ready demo_image))) 1 = []"
  by (simp add: demo_eval)

subsection \<open>One batch per frame\<close>

text \<open>
  Claim C6 (as amended). For a frame processed after calibration: when the detector
  reports ids and the callback runs to its end without exception, exactly one
  \<open>PoseArray\<close> followed by exactly one \<open>ArucoMarkers\<close> message is published (each may
  hold no poses); when the detector reports no marker (ids \<open>None\<close>), the callback
  returns without publishing anything.
\<close>

theorem frame_batch:
  assumes "info_msg n = Some info"
    and "detectMarkers c (img_data img_msg) = (corners, ids)"
  shows "(ids = None \<longrightarrow>
            raised (image_callback c now n img_msg) = None \<and>
            events_of (image_callback c now n img_msg) = []) \<and>
         (ids \<noteq> None \<and> raised (image_callback c now n img_msg) = None \<longrightarrow>
            (\<exists>pa mk. events_of (image_callback c now n img_msg)
                       = [Publish_poses pa, Publish_markers mk]))"
proof (cases rule: image_callback_cases [of n c now img_msg])
  case awaiting
  then show ?thesis using assms by simp
next
  case (no_markers info corners)
  then show ?thesis using assms by (simp add: raised_def events_of_def)
next
  case (solver_raised info corners marker_ids e)
  then show ?thesis using assms by (simp add: raised_def events_of_def)
next
  case (markers info corners' marker_ids rvecs tvecs e h pa mk)
  then show ?thesis using assms by (simp add: raised_def events_of_def)
qed

theorem frame_batch_witness:
  "info_msg demo_ready = Some demo_info \<and>
   detectMarkers (demo_cv ([], None)) (img_data demo_image) = ([], None) \<and>
   events_of (image_callback (demo_cv ([], None)) 1 demo_ready demo_image) = [] \<and>
   detectMarkers (demo_cv ([demo_corner], Some [1])) (img_data demo_image)
     = ([demo_corner], Some [1]) \<and>
   Some [1 :: int] \<noteq> None \<and>
   raised (image_callback (demo_cv ([demo_corner], Some [1])) 1 demo_ready demo_image)
     = None \<and>
   (\<exists>pa mk. events_of
       (image_callback (demo_cv ([demo_corner], Some [1])) 1 demo_ready demo_image)
     = [Publish_poses pa, Publish_markers mk])"
proof -
  have ready: "info_msg demo_ready = Some demo_info" by (simp add: demo_ready_simps)
  have det0: "detectMarkers (demo_cv ([], None)) (img_data demo_image) = ([], None)"
    by (simp add: demo_cv_def)
  have det1: "detectMarkers (demo_cv ([demo_corner], Some [1])) (img_data demo_image)
              = ([demo_corner], Some [1])"
    by (simp add: demo_cv_def)
  have ok: "raised (image_callback (demo_cv ([demo_corner], Some [1])) 1
              demo_ready demo_image) = None"
    by (simp add: demo_eval)
  show ?thesis
    using frame_batch [OF ready det0, of 1] frame_batch [OF ready det1, of 1] ready det0 det1 ok
    by simp
qed

text \<open>
  The claim as stated has a batch emitted for a frame without markers; nothing is
  published for such a frame.
\<close>

theorem no_markers_counterexample:
  "poses_published (events_of
     (image_callback (demo_cv ([], None)) 1 demo_ready demo_image)) = [] \<and>
   markers_published (events_of
     (image_callback (demo_cv ([], None)) 1 demo_ready demo_image)) = []"
  by (simp add: demo_eval)

subsection \<open>The two published messages agree\<close>

lemma frame_refines:
  assumes "info_msg n = Some info"
    and "raised (image_callback c now n img_msg) = None"
  shows "\<exists>batch. spec_batch (window_size n) (pose_history n) (frame_detections c n img_msg)
           = Inr (pose_history (node_of (image_callback c now n img_msg)), batch) \<and>
           (\<forall>pa mk. events_of (image_callback c now n img_msg)
                       = [Publish_poses pa, Publish_markers mk] \<longrightarrow>
              zip (am_marker_ids mk) (am_poses mk) = batch)"
proof (cases rule: image_callback_cases [of n c now img_msg])
  case awaiting
  then show ?thesis using assms by simp
next
  case (no_markers info corners)
  then show ?thesis
    by (simp add: frame_detections_def node_of_def events_of_def)
next
  case (solver_raised info corners marker_ids e)
  then show ?thesis using assms by (simp add: raised_def)
next
  case (markers info' corners marker_ids rvecs tvecs e h pa mk)
  have e: "e = None" using assms(2) markers(5) by (simp add: raised_def)
  have dets: "frame_detections c n img_msg = passing c rvecs tvecs (enumerate 0 marker_ids)"
    using markers(2,3) by (simp add: frame_detections_def)
  obtain batch where b:
    "spec_batch (window_size n) (pose_history n) (passing c rvecs tvecs (enumerate 0 marker_ids))
       = Inr (h, batch)"
    "am_marker_ids mk = map fst batch" "am_poses mk = map snd batch"
    using marker_loop_refines [OF markers(4) [unfolded e]] by auto
  have "zip (am_marker_ids mk) (am_poses mk) = batch"
    using b(2,3) by (simp add: zip_map_fst_snd)
  then show ?thesis using b(1) dets markers(5) e
    by (simp add: node_of_def events_of_def)
qed

text \<open>
  Claim C10. Whenever a frame is published, the poses sent on \<open>aruco_poses\<close> are, one by
  one, the poses sent on \<open>aruco_markers\<close>, the list of marker ids has exactly one entry
  for each pose, the two messages carry the same header, and the i-th id labels the i-th
  pose: the ids paired with the poses are the batch that the procedure of the
  specification yields for the detections of the frame, each pose being the smoothed
  history buffer of the marker whose id stands beside it, taken just after the raw pose
  of that detection was pushed.
\<close>

theorem published_consistent:
  assumes "Publish_poses pa \<in> set (events_of (image_callback c now n img_msg))"
    and "Publish_markers mk \<in> set (events_of (image_callback c now n img_msg))"
  shows "pa_poses pa = am_poses mk \<and>
         length (am_marker_ids mk) = length (am_poses mk) \<and>
         pa_header pa = am_header mk \<and>
         spec_batch (window_size n) (pose_history n) (frame_detections c n img_msg)
           = Inr (pose_history (node_of (image_callback c now n img_msg)),
                  zip (am_marker_ids mk) (am_poses mk))"
proof (cases rule: image_callback_cases [of n c now img_msg])
  case awaiting
  then show ?thesis using assms by (simp add: events_of_def)
next
  case (no_markers info corners)
  then show ?thesis using assms by (simp add: events_of_def)
next
  case (solver_raised info corners marker_ids e)
  then show ?thesis using assms by (simp add: events_of_def)
next
  case (markers info corners marker_ids rvecs tvecs e h pa' mk')
  have e: "e = None" and pa: "pa = pa'" and mk: "mk = mk'"
    using assms markers(5) by (auto simp: events_of_def split: if_splits)
  have inv: "pa_poses pa' = am_poses mk' \<and>
             length (am_marker_ids mk') = length (am_poses mk') \<and>
             pa_header pa' = am_header mk'"
    by (rule marker_loop_messages [OF markers(4)]) simp_all
  have ev: "events_of (image_callback c now n img_msg) = [Publish_poses pa', Publish_markers mk']"
    using markers(5) e by (simp add: events_of_def)
  have "raised (image_callback c now n img_msg) = None"
    using markers(5) e by (simp add: raised_def)
  from frame_refines [OF markers(1) this] ev
  have "spec_batch (window_size n) (pose_history n) (frame_detections c n img_msg)
           = Inr (pose_history (node_of (image_callback c now n img_msg)),
                  zip (am_marker_ids mk') (am_poses mk'))"
    by auto
  then show ?thesis using inv pa mk by simp
qed

theorem published_consistent_witness:
  "Publish_poses
     \<lparr> pa_header = \<lparr> frame_id = ''camera'', stamp = 7 \<rparr>,
       pa_poses = [\<lparr> position = (0, 0, 1), orientation = (0, 0, 0, 1) \<rparr>] \<rparr>
     \<in> set (events_of
         (image_callback (demo_cv ([demo_corner], Some [1])) 1 demo_ready demo_image)) \<and>
   Publish_markers
     \<lparr> am_header = \<lparr> frame_id = ''camera'', stamp = 7 \<rparr>,
       am_marker_ids = [1],
       am_poses = [\<lparr> position = (0, 0, 1), orientation = (0, 0, 0, 1) \<rparr>] \<rparr>
     \<in> set (events_of
         (image_callback (demo_cv ([demo_corner], Some [1])) 1 demo_ready demo_image)) \<and>
   spec_batch (window_size demo_ready) (pose_history demo_ready)
       (frame_detections (demo_cv ([demo_corner], Some [1])) demo_ready demo_image)
     = Inr (pose_history (node_of
              (image_callback (demo_cv ([demo_corner], Some [1])) 1 demo_ready demo_image)),
            [(1, \<lparr> position = (0, 0, 1), orientation = (0, 0, 0, 1) \<rparr>)])"
proof -
  have ev: "events_of
      (image_callback (demo_cv ([demo_corner], Some [1])) 1 demo_ready demo_image)
    = [Publish_poses
         \<lparr> pa_header = \<lparr> frame_id = ''camera'', stamp = 7 \<rparr>,
           pa_poses = [\<lparr> position = (0, 0, 1), orientation = (0, 0, 0, 1) \<rparr>] \<rparr>,
       Publish_markers
         \<lparr> am_header = \<lparr> frame_id = ''camera'', stamp = 7 \<rparr>,
           am_marker_ids = [1],
           am_poses = [\<lparr> position = (0, 0, 1), orientation = (0, 0, 0, 1) \<rparr>] \<rparr>]"
    by (simp add: demo_eval frame_header_def demo_info_def)
  have a: "Publish_poses
     \<lparr> pa_header = \<lparr> frame_id = ''camera'', stamp = 7 \<rparr>,
       pa_poses = [\<lparr> position = (0, 0, 1), orientation = (0, 0, 0, 1) \<rparr>] \<rparr>
     \<in> set (events_of
         (image_callback (demo_cv ([demo_corner], Some [1])) 1 demo_ready demo_image))"
    unfolding ev by simp
  have b: "Publish_markers
     \<lparr> am_header = \<lparr> frame_id = ''camera'', stamp = 7 \<rparr>,
       am_marker_ids = [1],
       am_poses = [\<lparr> position = (0, 0, 1), orientation = (0, 0, 0, 1) \<rparr>] \<rparr>
     \<in> set (events_of
         (image_callback (demo_cv ([demo_corner], Some [1])) 1 demo_ready demo_image))"
    unfolding ev by simp
  show ?thesis using published_consistent [OF a b] a b by simp
qed

subsection \<open>The history buffers over a run of frames\<close>

lemma frame_history:
  assumes "info_msg n = Some info"
    and "raised (image_callback c now n img_msg) = None"
  shows "history_get (pose_history (node_of (image_callback c now n img_msg))) m
         = foldl (deque_append (window_size n)) (history_get (pose_history n) m)
             (map snd (filter (\<lambda>(m', p). m' = m) (frame_detections c n img_msg)))"
proof -
  obtain batch where
    "spec_batch (window_size n) (pose_history n) (frame_detections c n img_msg)
       = Inr (pose_history (node_of (image_callback c now n img_msg)), batch)"
    using frame_refines [OF assms] by blast
  then show ?thesis by (rule spec_batch_history)
qed

lemma appended_update:
  "appended c (n \<lparr> last_publish_time := t, pose_history := h \<rparr>) frames m = appended c n frames m"
  unfolding appended_def frame_detections_update by (rule refl)

lemma spin_frames_history:
  assumes "info_msg n = Some info"
    and "raised (spin c n (map (\<lambda>(now, img_msg). Image_raw now img_msg) frames)) = None"
  shows "history_get (pose_history (node_of
           (spin c n (map (\<lambda>(now, img_msg). Image_raw now img_msg) frames)))) m
         = foldl (deque_append (window_size n)) (history_get (pose_history n) m)
             (appended c n frames m)"
  using assms
proof (induction frames arbitrary: n)
  case Nil
  then show ?case by (simp add: node_of_def appended_def)
next
  case (Cons f frames)
  obtain now img_msg where f: "f = (now, img_msg)" by (cases f) auto
  let ?r = "image_callback c now n img_msg"
  let ?msgs = "map (\<lambda>(now, img_msg). Image_raw now img_msg) frames"
  obtain e n' evs where r: "?r = (e, n', evs)" by (cases ?r) auto
  obtain e' n'' evs' where s: "spin c n' ?msgs = (e', n'', evs')"
    by (cases "spin c n' ?msgs") auto
  have e: "e = None"
    using Cons.prems(2) f r by (cases e) (simp_all add: raised_def)
  have sp: "spin c n (map (\<lambda>(now, img_msg). Image_raw now img_msg) (f # frames))
            = (e', n'', evs @ evs')"
    using f r e s by simp
  have ok: "raised ?r = None" using r e by (simp add: raised_def)
  obtain t h where n': "n' = n \<lparr> last_publish_time := t, pose_history := h \<rparr>"
    using image_callback_node [of c now n img_msg] r by (auto simp: node_of_def)
  have info': "info_msg n' = Some info" using n' Cons.prems(1) by simp
  have ok': "raised (spin c n' ?msgs) = None"
    using Cons.prems(2) sp s by (simp add: raised_def)
  have one: "history_get (pose_history n') m
             = foldl (deque_append (window_size n)) (history_get (pose_history n) m)
                 (map snd (filter (\<lambda>(m', p). m' = m) (frame_detections c n img_msg)))"
    using frame_history [OF Cons.prems(1) ok, of m] r by (simp add: node_of_def)
  have "history_get (pose_history (node_of (spin c n' ?msgs))) m
        = foldl (deque_append (window_size n')) (history_get (pose_history n') m)
            (appended c n' frames m)"
    by (rule Cons.IH [OF info' ok'])
  moreover have "window_size n' = window_size n" using n' by simp
  moreover have "appended c n' frames m = appended c n frames m"
    unfolding n' by (rule appended_update)
  moreover have "appended c n (f # frames) m
        = map snd (filter (\<lambda>(m', p). m' = m) (frame_detections c n img_msg))
          @ appended c n frames m"
    using f by (simp add: appended_def)
  moreover have "node_of (spin c n (map (\<lambda>(now, img_msg). Image_raw now img_msg) (f # frames)))
        = node_of (spin c n' ?msgs)"
    using sp s by (simp add: node_of_def)
  ultimately show ?case using one by simp
qed

lemma demo_appended:
  "appended demo_moving_cv demo_ready demo_frames 1
   = [((0, 0, 1), (0, 0, 0, 1)), ((1, 0, 1), (0, 0, 0, 1)), ((2, 0, 1), (0, 0, 0, 1))]"
  by (simp add: appended_def demo_frames_def frame_detections_def demo_moving_cv_def demo_cv_def
      demo_corner_def solve_all_def passing_def raw_pose_def enumerate_eq_zip)

lemma spin_frames_returns:
  assumes "version_gt_4 c" and "0 < window_size n"
    and "\<And>data corners ids. detectMarkers c data = (corners, ids) \<Longrightarrow>
           (\<forall>marker_ids. ids = Some marker_ids \<longrightarrow> length marker_ids \<le> length corners) \<and>
           (\<forall>corner \<in> set corners. \<exists>v.
              solvePnP c (obj_points (marker_size n)) corner (intrinsic_mat n) (distortion n)
                = Inr v)"
  shows "raised (spin c n (map (\<lambda>(now, img_msg). Image_raw now img_msg) frames)) = None"
  using assms(2,3)
proof (induction frames arbitrary: n)
  case Nil
  then show ?case by (simp add: raised_def)
next
  case (Cons f frames)
  obtain now img_msg where f: "f = (now, img_msg)" by (cases f) auto
  let ?r = "image_callback c now n img_msg"
  let ?msgs = "map (\<lambda>(now, img_msg). Image_raw now img_msg) frames"
  obtain corners ids where det: "detectMarkers c (img_data img_msg) = (corners, ids)"
    by (cases "detectMarkers c (img_data img_msg)") auto
  have ok: "raised ?r = None"
    using image_callback_returns [OF assms(1) Cons.prems(1) det] Cons.prems(2) [OF det] by blast
  obtain e n' evs where r: "?r = (e, n', evs)" by (cases ?r) auto
  have e: "e = None" using ok r by (simp add: raised_def)
  obtain t h where n': "n' = n \<lparr> last_publish_time := t, pose_history := h \<rparr>"
    using image_callback_node [of c now n img_msg] r by (auto simp: node_of_def)
  have "raised (spin c n' ?msgs) = None"
    using Cons.prems unfolding n' by (intro Cons.IH) simp_all
  then show ?case using f r e
    by (cases "spin c n' ?msgs") (simp add: raised_def)
qed

text \<open>
  Claim C5. Take a calibrated node, any marker id whose deque holds no more than
  \<open>window_size\<close> entries (as every deque of the node does), and a run of frames that the
  callback handles without exception. If the frames append more than \<open>window_size\<close> raw
  poses to the deque of that marker, the deque afterwards holds exactly \<open>window_size\<close>
  entries, and they are the last \<open>window_size\<close> appended ones, oldest first.
\<close>

theorem history_fifo:
  assumes "info_msg n = Some info"
    and "raised (spin c n (map (\<lambda>(now, img_msg). Image_raw now img_msg) frames)) = None"
    and "length (history_get (pose_history n) marker_id) \<le> window_size n"
    and "window_size n < length (appended c n frames marker_id)"
  shows "length (history_get (pose_history (node_of
           (spin c n (map (\<lambda>(now, img_msg). Image_raw now img_msg) frames)))) marker_id)
           = window_size n \<and>
         history_get (pose_history (node_of
           (spin c n (map (\<lambda>(now, img_msg). Image_raw now img_msg) frames)))) marker_id
           = drop (length (appended c n frames marker_id) - window_size n)
               (appended c n frames marker_id)"
proof -
  let ?old = "history_get (pose_history n) marker_id"
  let ?ps = "appended c n frames marker_id"
  have "history_get (pose_history (node_of
           (spin c n (map (\<lambda>(now, img_msg). Image_raw now img_msg) frames)))) marker_id
        = drop (length ?old + length ?ps - window_size n) (?old @ ?ps)"
    using spin_frames_history [OF assms(1,2)] foldl_deque_append [OF assms(3)] by simp
  also have "\<dots> = drop (length ?ps - window_size n) ?ps"
    using assms(3,4) by simp
  finally show ?thesis using assms(4) by simp
qed

theorem history_fifo_witness:
  "info_msg demo_ready = Some demo_info \<and>
   raised (spin demo_moving_cv demo_ready
     (map (\<lambda>(now, img_msg). Image_raw now img_msg) demo_frames)) = None \<and>
   length (history_get (pose_history demo_ready) 1) \<le> window_size demo_ready \<and>
   window_size demo_ready < length (appended demo_moving_cv demo_ready demo_frames 1) \<and>
   history_get (pose_history (node_of (spin demo_moving_cv demo_ready
     (map (\<lambda>(now, img_msg). Image_raw now img_msg) demo_frames)))) 1
   = [((1, 0, 1), (0, 0, 0, 1)), ((2, 0, 1), (0, 0, 0, 1))]"
proof -
  have ready: "info_msg demo_ready = Some demo_info" by (simp add: demo_ready_simps)
  have ok: "raised (spin demo_moving_cv demo_ready
     (map (\<lambda>(now, img_msg). Image_raw now img_msg) demo_frames)) = None"
    by (rule spin_frames_returns)
       (auto simp: demo_moving_cv_def demo_cv_def demo_ready_simps demo_corner_def)
  have len: "length (history_get (pose_history demo_ready) 1) \<le> window_size demo_ready"
    by (simp add: demo_ready_simps history_get_def)
  have more: "window_size demo_ready < length (appended demo_moving_cv demo_ready demo_frames 1)"
    by (simp add: demo_appended demo_ready_simps)
  show ?thesis
    using history_fifo [OF ready ok len more] ready ok len more
    by (simp add: demo_appended demo_ready_simps)
qed

section \<open>Calibration\<close>

lemma image_callback_calibration:
  "info_sub (node_of (image_callback c now n img_msg)) = info_sub n \<and>
   info_msg (node_of (image_callback c now n img_msg)) = info_msg n \<and>
   intrinsic_mat (node_of (image_callback c now n img_msg)) = intrinsic_mat n \<and>
   distortion (node_of (image_callback c now n img_msg)) = distortion n"
  by (cases rule: image_callback_cases [of n c now img_msg]) (simp_all add: node_of_def)

lemma dispatch_frozen:
  assumes "\<not> info_sub n"
  shows "\<not> info_sub (node_of (dispatch c n m)) \<and>
         info_msg (node_of (dispatch c n m)) = info_msg n \<and>
         intrinsic_mat (node_of (dispatch c n m)) = intrinsic_mat n \<and>
         distortion (node_of (dispatch c n m)) = distortion n"
proof (cases m)
  case (Camera_info x)
  then show ?thesis using assms by (simp add: node_of_def)
next
  case (Image_raw now img_msg)
  then show ?thesis using assms image_callback_calibration [of c now n img_msg] by simp
qed

lemma spin_frozen:
  assumes "\<not> info_sub n"
  shows "\<not> info_sub (node_of (spin c n ms)) \<and>
         info_msg (node_of (spin c n ms)) = info_msg n \<and>
         intrinsic_mat (node_of (spin c n ms)) = intrinsic_mat n \<and>
         distortion (node_of (spin c n ms)) = distortion n"
  using assms
proof (induction ms arbitrary: n)
  case Nil
  then show ?case by (simp add: node_of_def)
next
  case (Cons m ms)
  obtain e n' evs where d: "dispatch c n m = (e, n', evs)"
    by (cases "dispatch c n m") auto
  have fr: "\<not> info_sub n' \<and> info_msg n' = info_msg n \<and>
            intrinsic_mat n' = intrinsic_mat n \<and> distortion n' = distortion n"
    using dispatch_frozen [OF Cons.prems, of c m] d by (simp add: node_of_def)
  show ?case
  proof (cases e)
    case None
    obtain e' n'' evs' where s: "spin c n' ms = (e', n'', evs')"
      by (cases "spin c n' ms") auto
    have "node_of (spin c n (m # ms)) = node_of (spin c n' ms)"
      using d None s by (simp add: node_of_def)
    then show ?thesis using Cons.IH [of n'] fr by simp
  next
    case (Some a)
    then have "node_of (spin c n (m # ms)) = n'" using d by (simp add: node_of_def)
    then show ?thesis using fr by simp
  qed
qed

lemma spin_awaiting:
  assumes "info_msg n = None"
  shows "node_of (spin c n (map (\<lambda>(now, img_msg). Image_raw now img_msg) frames @ rest))
         = node_of (spin c n rest)"
proof (induction frames)
  case Nil
  then show ?case by simp
next
  case (Cons f frames)
  obtain now img_msg where f: "f = (now, img_msg)" by (cases f) auto
  obtain e n' evs where s:
    "spin c n (map (\<lambda>(now, img_msg). Image_raw now img_msg) frames @ rest) = (e, n', evs)"
    by (metis prod_cases3)
  show ?case using Cons assms s f
    by (simp add: image_callback_def node_of_def)
qed

text \<open>
  Claim C8. Starting from the node as constructed, let \<open>m\<close> be the first camera-info
  message delivered, after any number of frames. Whatever messages follow, further
  camera-info messages included, in the state reached the stored message is \<open>m\<close>, the
  intrinsic matrix and the distortion coefficients are those of \<open>m\<close>, and the camera-info
  subscription no longer exists.
\<close>

theorem calibration_set_once:
  "info_msg (node_of (spin c (init msize frame t0)
       (map (\<lambda>(now, img_msg). Image_raw now img_msg) frames @ Camera_info m # later)))
     = Some m \<and>
   intrinsic_mat (node_of (spin c (init msize frame t0)
       (map (\<lambda>(now, img_msg). Image_raw now img_msg) frames @ Camera_info m # later)))
     = Some (reshape33 (info_k m)) \<and>
   distortion (node_of (spin c (init msize frame t0)
       (map (\<lambda>(now, img_msg). Image_raw now img_msg) frames @ Camera_info m # later)))
     = Some (info_d m) \<and>
   \<not> info_sub (node_of (spin c (init msize frame t0)
       (map (\<lambda>(now, img_msg). Image_raw now img_msg) frames @ Camera_info m # later)))"
proof -
  let ?n0 = "init msize frame t0"
  let ?n1 = "info_callback ?n0 m"
  have aw: "info_msg ?n0 = None" by (simp add: init_def)
  have sub: "info_sub ?n0" by (simp add: init_def)
  obtain e n'' evs' where s: "spin c ?n1 later = (e, n'', evs')"
    by (metis prod_cases3)
  have step: "node_of (spin c ?n0 (Camera_info m # later)) = node_of (spin c ?n1 later)"
    using sub s by (simp add: node_of_def)
  have fr: "\<not> info_sub ?n1" by (simp add: info_callback_def)
  have vals: "info_msg ?n1 = Some m" "intrinsic_mat ?n1 = Some (reshape33 (info_k m))"
    "distortion ?n1 = Some (info_d m)"
    by (simp_all add: info_callback_def)
  show ?thesis
    using spin_awaiting [OF aw, of c frames "Camera_info m # later"] step
      spin_frozen [OF fr, of c later] vals
    by simp
qed

end
